theory Spec2Isabelle
  imports Complex_Main "HOL-Library.Sublist"
begin

section \<open>JavaScript values used by the matching engine\<close>


definition num_or :: "rat option \<Rightarrow> rat \<Rightarrow> rat" where
  \<comment> \<open>\<^verbatim>\<open>x || d\<close> on a number: \<^verbatim>\<open>undefined\<close>, \<^verbatim>\<open>null\<close> and 0 are falsy.\<close>
  "num_or x d = (case x of None \<Rightarrow> d | Some v \<Rightarrow> if v = 0 then d else v)"




subsection \<open>String primitives\<close>

definition toLowerCase_char :: "char \<Rightarrow> char" where
  "toLowerCase_char c =
     (let n = (of_char c :: nat)
      in if (65 \<le> n \<and> n \<le> 90) \<or> (192 \<le> n \<and> n \<le> 222 \<and> n \<noteq> 215)
         then char_of (n + 32) else c)"

definition toLowerCase :: "string \<Rightarrow> string" where
  "toLowerCase s = map toLowerCase_char s"

definition regex_space :: "char \<Rightarrow> bool" where
  \<comment> \<open>The class \<^verbatim>\<open>\s\<close> below code unit 256: TAB, LF, VT, FF, CR, SP, NBSP.\<close>
  "regex_space c = ((of_char c :: nat) \<in> {9, 10, 11, 12, 13, 32, 160})"

definition regex_punct :: "char \<Rightarrow> bool" where
  \<comment> \<open>The class \<^verbatim>\<open>[.\-_]\<close>.\<close>
  "regex_punct c = (c = CHR ''.'' \<or> c = CHR ''-'' \<or> c = CHR ''_'')"

definition regex_strip :: "char \<Rightarrow> bool" where
  \<comment> \<open>The class \<^verbatim>\<open>[.\-_\s]\<close>.\<close>
  "regex_strip c = (regex_punct c \<or> regex_space c)"

fun startsWith :: "string \<Rightarrow> string \<Rightarrow> bool" where
  "startsWith s [] = True"
| "startsWith [] (p # ps) = False"
| "startsWith (c # cs) (p # ps) = (c = p \<and> startsWith cs ps)"

fun includes_str :: "string \<Rightarrow> string \<Rightarrow> bool" where
  \<comment> \<open>\<^verbatim>\<open>s.includes(t)\<close>: \<open>t\<close> occurs in \<open>s\<close> as a contiguous run.\<close>
  "includes_str [] t = (t = [])"
| "includes_str (c # cs) t = (startsWith (c # cs) t \<or> includes_str cs t)"

fun matchAt_ci :: "string \<Rightarrow> string \<Rightarrow> bool" where
  \<comment> \<open>A literal pattern under the \<^verbatim>\<open>i\<close> flag matches at the start of the input.\<close>
  "matchAt_ci [] s = True"
| "matchAt_ci (p # ps) [] = False"
| "matchAt_ci (p # ps) (c # cs) =
     (toLowerCase_char c = toLowerCase_char p \<and> matchAt_ci ps cs)"

fun replace_first_ci :: "string \<Rightarrow> string \<Rightarrow> string \<Rightarrow> string" where
  \<comment> \<open>\<^verbatim>\<open>s.replace(/pat/i, rep)\<close>: only the leftmost match is replaced.\<close>
  "replace_first_ci pat rep [] = (if matchAt_ci pat [] then rep else [])"
| "replace_first_ci pat rep (c # cs) =
     (if matchAt_ci pat (c # cs) then rep @ drop (length pat) (c # cs)
      else c # replace_first_ci pat rep cs)"

fun replace_end_ci :: "string \<Rightarrow> string \<Rightarrow> string \<Rightarrow> string" where
  \<comment> \<open>\<^verbatim>\<open>s.replace(/pat$/i, rep)\<close>: the match must reach the end of the input.\<close>
  "replace_end_ci pat rep [] = (if matchAt_ci pat [] then rep else [])"
| "replace_end_ci pat rep (c # cs) =
     (if matchAt_ci pat (c # cs) \<and> length (c # cs) = length pat then rep
      else c # replace_end_ci pat rep cs)"

definition replace_start_ci :: "string \<Rightarrow> string \<Rightarrow> string \<Rightarrow> string" where
  \<comment> \<open>\<^verbatim>\<open>s.replace(/^pat/i, rep)\<close>: the match must start the input.\<close>
  "replace_start_ci pat rep s = (if matchAt_ci pat s then rep @ drop (length pat) s else s)"

definition trim :: "string \<Rightarrow> string" where
  "trim s = rev (dropWhile regex_space (rev (dropWhile regex_space s)))"

section \<open>Skill normalizer\<close>

definition normalizeSkillName :: "string option \<Rightarrow> string" where
  \<comment> \<open>\<^verbatim>\<open>MatchingService.normalizeSkillName\<close>\<close>
  "normalizeSkillName skillName =
     (case skillName of
        None \<Rightarrow> []
      | Some s \<Rightarrow>
          if s = [] then []
          else replace_first_ci ''nodejs'' ''node''
                 (replace_first_ci ''reactjs'' ''react''
                   (replace_end_ci ''js'' ''javascript''
                     (filter (\<lambda>c. \<not> regex_strip c) (toLowerCase s)))))"

definition ri_normalizeSkillName :: "string option \<Rightarrow> string" where
  \<comment> \<open>\<^verbatim>\<open>ResumeIntelligenceService.normalizeSkillName\<close>; the job-description service
      carries the same body.\<close>
  "ri_normalizeSkillName skillName =
     (case skillName of
        None \<Rightarrow> []
      | Some s \<Rightarrow>
          if s = [] then []
          else trim
                 (replace_first_ci ''angularjs'' ''angular''
                   (replace_first_ci ''vuejs'' ''vue''
                     (replace_first_ci ''nodejs'' ''node''
                       (replace_first_ci ''reactjs'' ''react''
                         (replace_start_ci ''js'' ''javascript''
                           (replace_end_ci ''js'' ''javascript''
                             (filter (\<lambda>c. \<not> regex_space c)
                               (filter (\<lambda>c. \<not> regex_punct c) (toLowerCase s))))))))))"

section \<open>Skill presence test\<close>

fun hasSkill_loop :: "string list \<Rightarrow> string \<Rightarrow> bool" where
  \<comment> \<open>The \<^verbatim>\<open>for ... of\<close> loop of \<^verbatim>\<open>hasSkill\<close>, leaving at the first partial match.\<close>
  "hasSkill_loop [] normalized = False"
| "hasSkill_loop (candidateSkill # rest) normalized =
     (if includes_str candidateSkill normalized \<or> includes_str normalized candidateSkill then True
      else hasSkill_loop rest normalized)"

definition hasSkill :: "string list \<Rightarrow> string option \<Rightarrow> bool" where
  \<comment> \<open>The candidate's \<^verbatim>\<open>Set\<close> is given by its elements in insertion order.\<close>
  "hasSkill candidateSkills skillName =
     (let normalized = normalizeSkillName skillName
      in if normalized \<in> set candidateSkills then True
         else hasSkill_loop candidateSkills normalized)"


section \<open>Requirement and candidate profiles\<close>

text \<open>
  Only the fields the engine reads are modelled. An optional field is an \<open>option\<close>;
  \<^verbatim>\<open>a?.b\<close> is \<open>Option.bind a b\<close>.
\<close>

record jd_skill =
  name :: "string option"
  normalized :: "string option"
  importance :: "rat option"










section \<open>Dimension scorers\<close>

subsection \<open>Skills\<close>



subsection \<open>Experience\<close>



subsection \<open>Projects\<close>






subsection \<open>Education\<close>



section \<open>Configuration\<close>



datatype js_error = Error string | TypeError string


section \<open>Explanation and match result\<close>





datatype collab_failure =
  NotConfigured | RequestRejected | HttpStatus nat | NoChoices | UnparsableJson





record experience_analysis =
  required :: rat
  candidate :: rat
  meetsRequirement :: bool
  relevantDomains :: "string list"






section \<open>Candidate comparison\<close>

record candidate =
  candidate_id :: string
  candidate_name :: string
  score_total :: "rat option"
  score_skills :: "rat option"
  score_experience :: "rat option"
  score_projects :: "rat option"
  score_education :: "rat option"
  classification :: "string option"

definition score_of :: "string \<Rightarrow> candidate \<Rightarrow> rat option" where
  \<comment> \<open>The computed property \<^verbatim>\<open>c[`score_${dim}`]\<close>.\<close>
  "score_of dimName c =
     (if dimName = ''total'' then score_total c
      else if dimName = ''skills'' then score_skills c
      else if dimName = ''experience'' then score_experience c
      else if dimName = ''projects'' then score_projects c
      else if dimName = ''education'' then score_education c
      else None)"

record candidate_scores =
  cs_total :: "rat option"
  cs_skills :: "rat option"
  cs_experience :: "rat option"
  cs_projects :: "rat option"
  cs_education :: "rat option"

record candidate_summary =
  summary_id :: string
  summary_name :: string
  summary_scores :: candidate_scores
  summary_classification :: "string option"

record dimension_score =
  candidateId :: string
  score :: "rat option"

record dimension_entry =
  dimension :: string
  dimension_scores :: "dimension_score list"
  winner :: string

record comparison =
  candidates :: "candidate_summary list"
  dimensions :: "dimension_entry list"
  overallWinner :: string

fun filter_Boolean :: "'a option list \<Rightarrow> 'a list" where
  \<comment> \<open>\<^verbatim>\<open>candidates.filter(Boolean)\<close> on looked-up records: \<^verbatim>\<open>null\<close> is dropped.\<close>
  "filter_Boolean [] = []"
| "filter_Boolean (None # xs) = filter_Boolean xs"
| "filter_Boolean (Some x # xs) = x # filter_Boolean xs"

definition better :: "string \<Rightarrow> candidate \<Rightarrow> candidate \<Rightarrow> candidate" where
  \<comment> \<open>The reducer \<^verbatim>\<open>(best, c) => (c[k] || 0) > (best[k] || 0) ? c : best\<close>.\<close>
  "better dimName best c = (if num_or (score_of dimName c) 0 > num_or (score_of dimName best) 0 then c else best)"

fun reduce1 :: "('a \<Rightarrow> 'a \<Rightarrow> 'a) \<Rightarrow> 'a list \<Rightarrow> js_error + 'a" where
  \<comment> \<open>\<^verbatim>\<open>Array.prototype.reduce\<close> without an initial value.\<close>
  "reduce1 f [] = Inl (TypeError ''Reduce of empty array with no initial value'')"
| "reduce1 f (x # xs) = Inr (foldl f x xs)"

fun dimension_entries :: "candidate list \<Rightarrow> string list \<Rightarrow> js_error + dimension_entry list" where
  \<comment> \<open>The \<^verbatim>\<open>map\<close> over the four dimension names.\<close>
  "dimension_entries validCandidates [] = Inr []"
| "dimension_entries validCandidates (dimName # dims) =
     (case reduce1 (better dimName) validCandidates of
        Inl e \<Rightarrow> Inl e
      | Inr best \<Rightarrow>
          (case dimension_entries validCandidates dims of
             Inl e \<Rightarrow> Inl e
           | Inr rest \<Rightarrow>
               Inr (\<lparr>dimension = dimName,
                     dimension_scores =
                       map (\<lambda>c. \<lparr>candidateId = candidate_id c, score = score_of dimName c\<rparr>) validCandidates,
                     winner = candidate_id best\<rparr> # rest)))"

definition compareCandidates :: "(string \<Rightarrow> candidate option) \<Rightarrow> string list \<Rightarrow> js_error + comparison" where
  \<comment> \<open>\<open>findById\<close> is \<^verbatim>\<open>CandidateModel.findById\<close>: \<open>None\<close> for an unknown or malformed
      identifier.\<close>
  "compareCandidates findById candidateIds =
     (let candidates = map findById candidateIds;
          validCandidates = filter_Boolean candidates
      in if length validCandidates < 2
         then Inl (Error ''Need at least 2 valid candidates to compare'')
         else
           (case dimension_entries validCandidates
                   [''skills'', ''experience'', ''projects'', ''education''] of
              Inl e \<Rightarrow> Inl e
            | Inr dims \<Rightarrow>
                (case reduce1 (better ''total'') validCandidates of
                   Inl e \<Rightarrow> Inl e
                 | Inr best \<Rightarrow>
                     Inr \<lparr>candidates =
                            map (\<lambda>c. \<lparr>summary_id = candidate_id c, summary_name = candidate_name c,
                                      summary_scores =
                                        \<lparr>cs_total = score_total c, cs_skills = score_skills c,
                                         cs_experience = score_experience c,
                                         cs_projects = score_projects c,
                                         cs_education = score_education c\<rparr>,
                                      summary_classification = classification c\<rparr>)
                              validCandidates,
                          dimensions = dims,
                          overallWinner = candidate_id best\<rparr>)))"

section \<open>Reference formulations\<close>

text \<open>
  The definitions of this section restate the scoring rules in closed form; the theorems
  below relate each of them to the loop or pipeline it describes.
\<close>

definition is_lower :: "string \<Rightarrow> bool" where
  "is_lower s = (\<forall>c\<in>set s. toLowerCase_char c = c)"

definition is_stripped :: "string \<Rightarrow> bool" where
  "is_stripped s = (\<forall>c\<in>set s. \<not> regex_strip c)"

definition alias_pipeline :: "string \<Rightarrow> string" where
  \<comment> \<open>The three alias replacements of \<open>normalizeSkillName\<close>, in their order.\<close>
  "alias_pipeline s =
     replace_first_ci ''nodejs'' ''node''
       (replace_first_ci ''reactjs'' ''react'' (replace_end_ci ''js'' ''javascript'' s))"


















definition first_highest :: "(candidate \<Rightarrow> rat) \<Rightarrow> candidate list \<Rightarrow> string \<Rightarrow> bool" where
  \<comment> \<open>\<open>w\<close> is the identifier of the earliest candidate whose score no other exceeds.\<close>
  "first_highest sc cs w =
     (\<exists>i<length cs. candidate_id (cs ! i) = w
        \<and> (\<forall>j<length cs. sc (cs ! j) \<le> sc (cs ! i))
        \<and> (\<forall>j<i. sc (cs ! j) < sc (cs ! i)))"


section \<open>Sample profiles\<close>




definition example_findById :: "string \<Rightarrow> candidate option" where
  "example_findById =
     map_of
       [(''c1'', \<lparr>candidate_id = ''c1'', candidate_name = ''Ada'', score_total = Some 80,
                 score_skills = Some 90, score_experience = Some 70, score_projects = Some 50,
                 score_education = Some 100, classification = Some ''shortlisted''\<rparr>),
        (''c2'', \<lparr>candidate_id = ''c2'', candidate_name = ''Grace'', score_total = Some 80,
                 score_skills = Some 90, score_experience = Some 75, score_projects = Some 50,
                 score_education = Some 80, classification = Some ''shortlisted''\<rparr>),
        (''c3'', \<lparr>candidate_id = ''c3'', candidate_name = ''Edsger'', score_total = Some 60,
                 score_skills = Some 40, score_experience = Some 75, score_projects = None,
                 score_education = Some 80, classification = Some ''borderline''\<rparr>)]"

section \<open>Properties of the string primitives\<close>

lemma startsWith_prefix: "startsWith s t \<longleftrightarrow> prefix t s"
  by (induction s t rule: startsWith.induct) auto

lemma includes_sublist: "includes_str s t \<longleftrightarrow> sublist t s"
  by (induction s) (auto simp: startsWith_prefix sublist_Cons_right)

lemma includes_Nil [simp]: "includes_str s []"
  by (simp add: includes_sublist)

lemma hasSkill_loop_iff:
  "hasSkill_loop S n \<longleftrightarrow> (\<exists>t\<in>set S. includes_str t n \<or> includes_str n t)"
  by (induction S) auto

section \<open>Skill presence: bidirectional containment\<close>

text \<open>
  C5. \<open>hasSkill S n\<close> holds exactly when \<open>S\<close> contains the normalized name, or a token of
  \<open>S\<close> occurs inside the normalized name, or the normalized name occurs inside a token of
  \<open>S\<close>; so "react native" against "react" matches in both directions.
\<close>

theorem hasSkill_iff:
  "(hasSkill S n \<longleftrightarrow>
      normalizeSkillName n \<in> set S
      \<or> (\<exists>t\<in>set S. sublist t (normalizeSkillName n))
      \<or> (\<exists>t\<in>set S. sublist (normalizeSkillName n) t))
   \<and> hasSkill [''react''] (Some ''react native'')
   \<and> hasSkill [''reactnative''] (Some ''React'')"
proof -
  have "hasSkill S n \<longleftrightarrow>
      normalizeSkillName n \<in> set S
      \<or> (\<exists>t\<in>set S. sublist t (normalizeSkillName n))
      \<or> (\<exists>t\<in>set S. sublist (normalizeSkillName n) t)"
    unfolding hasSkill_def Let_def
    by (auto simp: hasSkill_loop_iff includes_sublist)
  moreover have "hasSkill [''react''] (Some ''react native'')"
    by code_simp
  moreover have "hasSkill [''reactnative''] (Some ''React'')"
    by code_simp
  ultimately show ?thesis by blast
qed

theorem hasSkill_iff_witness: "hasSkill [''c'', ''java''] (Some ''Java-Script'')"
proof -
  have n: "normalizeSkillName (Some ''Java-Script'') = ''javascript''"
    by code_simp
  have "sublist ''java'' ''javascript''"
    by code_simp
  then show ?thesis
    using hasSkill_iff [of "[''c'', ''java'']" "Some ''Java-Script''"] n by simp
qed

section \<open>Replacement on lower-case strings\<close>

lemma toLowerCase_char_idem: "toLowerCase_char (toLowerCase_char c) = toLowerCase_char c"
  unfolding toLowerCase_char_def Let_def
  by (auto simp: of_char_of [where ?'a = nat])

lemma is_lower_toLowerCase: "is_lower (toLowerCase s)"
  by (simp add: is_lower_def toLowerCase_def toLowerCase_char_idem)

lemma is_lower_Nil [simp]: "is_lower []"
  by (simp add: is_lower_def)

lemma is_lower_Cons: "is_lower (c # cs) \<longleftrightarrow> toLowerCase_char c = c \<and> is_lower cs"
  by (simp add: is_lower_def)

lemma is_lower_append: "is_lower (a @ b) \<longleftrightarrow> is_lower a \<and> is_lower b"
  by (auto simp: is_lower_def)

lemma is_lower_filter: "is_lower s \<Longrightarrow> is_lower (filter P s)"
  by (simp add: is_lower_def)

lemma is_lower_drop: "is_lower s \<Longrightarrow> is_lower (drop n s)"
  by (auto simp: is_lower_def dest: in_set_dropD)

lemma toLowerCase_fixed: "is_lower s \<Longrightarrow> toLowerCase s = s"
  by (simp add: is_lower_def toLowerCase_def map_idI)

lemma matchAt_ci_prefix:
  "is_lower s \<Longrightarrow> is_lower pat \<Longrightarrow> matchAt_ci pat s \<longleftrightarrow> prefix pat s"
  by (induction pat s rule: matchAt_ci.induct) (auto simp: is_lower_Cons)

lemma matchAt_ci_length: "matchAt_ci pat s \<Longrightarrow> length pat \<le> length s"
  by (induction pat s rule: matchAt_ci.induct) auto

lemma replace_first_ci_absent:
  "is_lower s \<Longrightarrow> is_lower pat \<Longrightarrow> \<not> sublist pat s \<Longrightarrow> replace_first_ci pat rep s = s"
proof (induction s)
  case Nil
  then show ?case by (cases pat) auto
next
  case (Cons c cs)
  then show ?case
    by (auto simp: sublist_Cons_right matchAt_ci_prefix is_lower_Cons)
qed

lemma replace_first_ci_length:
  "is_lower s \<Longrightarrow> is_lower pat \<Longrightarrow> sublist pat s \<Longrightarrow>
   length (replace_first_ci pat rep s) + length pat = length s + length rep"
proof (induction s)
  case Nil
  then show ?case by (cases pat) auto
next
  case (Cons c cs)
  show ?case
  proof (cases "matchAt_ci pat (c # cs)")
    case True
    then show ?thesis
      using matchAt_ci_length [OF True] by simp
  next
    case False
    with Cons.prems have "sublist pat cs"
      by (simp add: sublist_Cons_right matchAt_ci_prefix)
    with Cons False show ?thesis
      by (simp add: is_lower_Cons)
  qed
qed

lemma replace_first_ci_shape:
  "replace_first_ci pat rep s = s \<or>
   (\<exists>a m b. s = a @ m @ b \<and> length m = length pat \<and> replace_first_ci pat rep s = a @ rep @ b)"
proof (induction s)
  case Nil
  show ?case
  proof (cases pat)
    case Nil
    then show ?thesis by auto
  next
    case (Cons p ps)
    then show ?thesis by simp
  qed
next
  case (Cons c cs)
  show ?case
  proof (cases "matchAt_ci pat (c # cs)")
    case True
    have "c # cs = [] @ take (length pat) (c # cs) @ drop (length pat) (c # cs)"
      by simp
    moreover have "length (take (length pat) (c # cs)) = length pat"
      using matchAt_ci_length [OF True] by simp
    moreover have "replace_first_ci pat rep (c # cs) = [] @ rep @ drop (length pat) (c # cs)"
      using True by simp
    ultimately show ?thesis by blast
  next
    case False
    from Cons show ?thesis
    proof
      assume "replace_first_ci pat rep cs = cs"
      with False show ?thesis by simp
    next
      assume "\<exists>a m b. cs = a @ m @ b \<and> length m = length pat \<and> replace_first_ci pat rep cs = a @ rep @ b"
      then obtain a m b where "cs = a @ m @ b" "length m = length pat"
        "replace_first_ci pat rep cs = a @ rep @ b" by blast
      then have "c # cs = (c # a) @ m @ b \<and> length m = length pat \<and>
                 replace_first_ci pat rep (c # cs) = (c # a) @ rep @ b"
        using False by simp
      then show ?thesis by blast
    qed
  qed
qed

lemma replace_first_ci_set:
  "set (replace_first_ci pat rep s) \<subseteq> set s \<union> set rep"
proof (induction s)
  case Nil
  then show ?case by auto
next
  case (Cons c cs)
  then show ?case
    using set_drop_subset [of "length pat" "c # cs"] by auto
qed

lemma replace_end_ci_set:
  "set (replace_end_ci pat rep s) \<subseteq> set s \<union> set rep"
  by (induction s) auto

lemma replace_first_ci_nonempty:
  "s \<noteq> [] \<Longrightarrow> rep \<noteq> [] \<Longrightarrow> replace_first_ci pat rep s \<noteq> []"
  by (cases s) auto

lemma replace_end_ci_nonempty:
  "s \<noteq> [] \<Longrightarrow> rep \<noteq> [] \<Longrightarrow> replace_end_ci pat rep s \<noteq> []"
  by (cases s) auto

lemma matchAt_ci_refl: "matchAt_ci s s"
  by (induction s) auto

lemma prefix_same_length:
  assumes "prefix xs ys" and "length ys = length xs"
  shows "xs = ys"
proof -
  from assms(1) obtain zs where zs: "ys = xs @ zs"
    by (auto simp: prefix_def)
  with assms(2) have "zs = []" by simp
  with zs show ?thesis by simp
qed

lemma replace_end_ci_closed:
  "is_lower s \<Longrightarrow> is_lower pat \<Longrightarrow> pat \<noteq> [] \<Longrightarrow>
   replace_end_ci pat rep s =
     (if suffix pat s then take (length s - length pat) s @ rep else s)"
proof (induction s)
  case Nil
  then show ?case by (cases pat) auto
next
  case (Cons c cs)
  show ?case
  proof (cases "matchAt_ci pat (c # cs) \<and> length (c # cs) = length pat")
    case True
    then have "prefix pat (c # cs)" "length (c # cs) = length pat"
      using Cons.prems by (auto simp: matchAt_ci_prefix)
    then have "pat = c # cs"
      by (rule prefix_same_length)
    then show ?thesis using True by simp
  next
    case False
    have ne: "pat \<noteq> c # cs"
    proof
      assume "pat = c # cs"
      then have "matchAt_ci pat (c # cs) \<and> length (c # cs) = length pat"
        using matchAt_ci_refl [of pat] by simp
      with False show False by simp
    qed
    have sf: "suffix pat (c # cs) \<longleftrightarrow> suffix pat cs"
      using ne by (auto simp: suffix_Cons)
    have IH: "replace_end_ci pat rep cs =
        (if suffix pat cs then take (length cs - length pat) cs @ rep else cs)"
      using Cons by (simp add: is_lower_Cons)
    show ?thesis
    proof (cases "suffix pat cs")
      case True
      then have "length pat \<le> length cs" by (rule suffix_length_le)
      then have "take (length (c # cs) - length pat) (c # cs) = c # take (length cs - length pat) cs"
        by (simp add: Suc_diff_le)
      with True False IH sf show ?thesis by auto
    next
      case False2: False
      with False IH sf show ?thesis by auto
    qed
  qed
qed

section \<open>Normal form of a skill token\<close>

lemma normalizeSkillName_Some:
  "normalizeSkillName (Some s) =
     (if s = [] then [] else alias_pipeline (filter (\<lambda>c. \<not> regex_strip c) (toLowerCase s)))"
  by (simp add: normalizeSkillName_def alias_pipeline_def)

lemma alias_chars:
  "is_lower ''javascript''" "is_lower ''react''" "is_lower ''node''"
  "is_lower ''js''" "is_lower ''reactjs''" "is_lower ''nodejs''"
  "is_stripped ''javascript''" "is_stripped ''react''" "is_stripped ''node''"
  by code_simp+

lemma is_lower_subset: "set t \<subseteq> set s \<union> set r \<Longrightarrow> is_lower s \<Longrightarrow> is_lower r \<Longrightarrow> is_lower t"
  by (auto simp: is_lower_def)

lemma is_stripped_subset:
  "set t \<subseteq> set s \<union> set r \<Longrightarrow> is_stripped s \<Longrightarrow> is_stripped r \<Longrightarrow> is_stripped t"
  by (auto simp: is_stripped_def)

lemma alias_pipeline_lower: "is_lower s \<Longrightarrow> is_lower (alias_pipeline s)"
  unfolding alias_pipeline_def
  by (intro is_lower_subset [OF replace_first_ci_set] is_lower_subset [OF replace_end_ci_set]
        alias_chars)

lemma alias_pipeline_stripped: "is_stripped s \<Longrightarrow> is_stripped (alias_pipeline s)"
  unfolding alias_pipeline_def
  by (intro is_stripped_subset [OF replace_first_ci_set]
        is_stripped_subset [OF replace_end_ci_set] alias_chars)

lemma replace_end_js_no_js:
  assumes "is_lower s"
  shows "\<not> suffix ''js'' (replace_end_ci ''js'' ''javascript'' s)"
proof (cases "suffix ''js'' s")
  case True
  then obtain t where "replace_end_ci ''js'' ''javascript'' s = t @ ''javascript''"
    using replace_end_ci_closed [OF assms alias_chars(4), of "''javascript''"] by simp
  then show ?thesis
    by (simp add: suffix_to_prefix)
next
  case False
  then show ?thesis
    using replace_end_ci_closed [OF assms alias_chars(4), of "''javascript''"] by simp
qed

lemma suffix_js_middle:
  assumes "suffix ''js'' (a @ rep @ b)" and "rep = ''react'' \<or> rep = ''node''"
  shows "suffix ''js'' (a @ m @ b)"
proof (cases b rule: rev_cases)
  case Nil
  with assms show ?thesis by (auto simp: suffix_to_prefix)
next
  case (snoc b' x)
  show ?thesis
  proof (cases b' rule: rev_cases)
    case Nil
    with snoc assms show ?thesis by (auto simp: suffix_to_prefix)
  next
    case (snoc b'' y)
    with \<open>b = b' @ [x]\<close> assms(1) show ?thesis by (simp add: suffix_to_prefix)
  qed
qed

lemma replace_first_keeps_no_js:
  assumes "\<not> suffix ''js'' s" and "rep = ''react'' \<or> rep = ''node''"
  shows "\<not> suffix ''js'' (replace_first_ci pat rep s)"
proof
  assume sf: "suffix ''js'' (replace_first_ci pat rep s)"
  from replace_first_ci_shape [of pat rep s] show False
  proof
    assume "replace_first_ci pat rep s = s"
    with sf assms(1) show False by simp
  next
    assume "\<exists>a m b. s = a @ m @ b \<and> length m = length pat
              \<and> replace_first_ci pat rep s = a @ rep @ b"
    then obtain a m b where s: "s = a @ m @ b"
      and r: "replace_first_ci pat rep s = a @ rep @ b" by blast
    from sf r have "suffix ''js'' (a @ rep @ b)" by simp
    then have "suffix ''js'' (a @ m @ b)" using assms(2) by (rule suffix_js_middle)
    with s assms(1) show False by simp
  qed
qed

lemma alias_pipeline_no_js: "is_lower s \<Longrightarrow> \<not> suffix ''js'' (alias_pipeline s)"
proof -
  assume "is_lower s"
  then have "\<not> suffix ''js'' (replace_end_ci ''js'' ''javascript'' s)"
    by (rule replace_end_js_no_js)
  then have "\<not> suffix ''js''
      (replace_first_ci ''reactjs'' ''react'' (replace_end_ci ''js'' ''javascript'' s))"
    by (rule replace_first_keeps_no_js) simp
  then show ?thesis
    unfolding alias_pipeline_def by (rule replace_first_keeps_no_js) simp
qed

lemma alias_pipeline_fixed:
  assumes "is_lower y" "\<not> suffix ''js'' y" "\<not> sublist ''reactjs'' y" "\<not> sublist ''nodejs'' y"
  shows "alias_pipeline y = y"
proof -
  have "replace_end_ci ''js'' ''javascript'' y = y"
    using replace_end_ci_closed [OF assms(1) alias_chars(4), of "''javascript''"] assms(2) by simp
  moreover have "replace_first_ci ''reactjs'' ''react'' y = y"
    by (rule replace_first_ci_absent [OF assms(1) alias_chars(5) assms(3)])
  moreover have "replace_first_ci ''nodejs'' ''node'' y = y"
    by (rule replace_first_ci_absent [OF assms(1) alias_chars(6) assms(4)])
  ultimately show ?thesis by (simp add: alias_pipeline_def)
qed

lemma replace_first_ci_le:
  assumes "is_lower s" "is_lower pat" "length rep \<le> length pat"
  shows "length (replace_first_ci pat rep s) \<le> length s"
proof (cases "sublist pat s")
  case True
  then show ?thesis using replace_first_ci_length [OF assms(1,2) True, of rep] assms(3) by simp
next
  case False
  then show ?thesis using replace_first_ci_absent [OF assms(1,2) False] by simp
qed

lemma alias_pipeline_shrinks:
  assumes "is_lower y" "\<not> suffix ''js'' y" "sublist ''reactjs'' y \<or> sublist ''nodejs'' y"
  shows "length (alias_pipeline y) < length y"
proof -
  have e: "replace_end_ci ''js'' ''javascript'' y = y"
    using replace_end_ci_closed [OF assms(1) alias_chars(4), of "''javascript''"] assms(2) by simp
  let ?r = "replace_first_ci ''reactjs'' ''react'' y"
  have lr: "is_lower ?r"
    by (rule is_lower_subset [OF replace_first_ci_set assms(1) alias_chars(2)])
  show ?thesis
  proof (cases "sublist ''reactjs'' y")
    case True
    have "length ?r + length ''reactjs'' = length y + length ''react''"
      by (rule replace_first_ci_length [OF assms(1) alias_chars(5) True])
    then have "length ?r < length y" by simp
    moreover have "length (replace_first_ci ''nodejs'' ''node'' ?r) \<le> length ?r"
      by (rule replace_first_ci_le [OF lr alias_chars(6)]) simp
    ultimately show ?thesis by (simp add: alias_pipeline_def e)
  next
    case False
    then have r: "?r = y"
      by (rule replace_first_ci_absent [OF assms(1) alias_chars(5)])
    from False assms(3) have n: "sublist ''nodejs'' y" by simp
    have "length (replace_first_ci ''nodejs'' ''node'' y) + length ''nodejs''
            = length y + length ''node''"
      by (rule replace_first_ci_length [OF assms(1) alias_chars(6) n])
    then show ?thesis by (simp add: alias_pipeline_def e r)
  qed
qed

lemma filter_fixed: "is_stripped y \<Longrightarrow> filter (\<lambda>c. \<not> regex_strip c) y = y"
  by (simp add: is_stripped_def)

lemma is_stripped_Nil [simp]: "is_stripped []"
  by (simp add: is_stripped_def)

lemma is_stripped_filter: "is_stripped (filter (\<lambda>c. \<not> regex_strip c) s)"
  by (simp add: is_stripped_def)

lemma normalizeSkillName_normal_form:
  "is_lower (normalizeSkillName x) \<and> is_stripped (normalizeSkillName x)
   \<and> \<not> suffix ''js'' (normalizeSkillName x)"
proof (cases "\<exists>s. x = Some s \<and> s \<noteq> []")
  case False
  then have "normalizeSkillName x = []"
    by (cases x) (auto simp: normalizeSkillName_def)
  then show ?thesis by simp
next
  case True
  then obtain s where x: "x = Some s" and s: "s \<noteq> []" by blast
  define t where "t = filter (\<lambda>c. \<not> regex_strip c) (toLowerCase s)"
  have n: "normalizeSkillName x = alias_pipeline t"
    unfolding x t_def using s by (simp only: normalizeSkillName_Some if_False)
  have l: "is_lower t"
    unfolding t_def by (intro is_lower_filter is_lower_toLowerCase)
  have st: "is_stripped t"
    unfolding t_def by (rule is_stripped_filter)
  show ?thesis
    unfolding n
    using alias_pipeline_lower [OF l] alias_pipeline_stripped [OF st] alias_pipeline_no_js [OF l]
    by blast
qed

lemma normalizeSkillName_on_normal_form:
  assumes "is_lower y" "is_stripped y"
  shows "normalizeSkillName (Some y) = (if y = [] then [] else alias_pipeline y)"
proof -
  have "filter (\<lambda>c. \<not> regex_strip c) (toLowerCase y) = y"
    using assms by (simp only: toLowerCase_fixed filter_fixed)
  then show ?thesis
    by (simp only: normalizeSkillName_Some)
qed

lemma regex_strip_code: "regex_strip c \<longleftrightarrow> (of_char c :: nat) \<in> {45, 46, 95, 9, 10, 11, 12, 13, 32, 160}"
proof -
  have "c = CHR ''.'' \<longleftrightarrow> (of_char c :: nat) = of_char CHR ''.''"
       "c = CHR ''-'' \<longleftrightarrow> (of_char c :: nat) = of_char CHR ''-''"
       "c = CHR ''_'' \<longleftrightarrow> (of_char c :: nat) = of_char CHR ''_''"
    by (simp_all only: of_char_eq_iff)
  then show ?thesis
    by (auto simp: regex_strip_def regex_punct_def regex_space_def)
qed

lemma regex_strip_toLowerCase: "regex_strip (toLowerCase_char c) \<longleftrightarrow> regex_strip c"
  unfolding regex_strip_code toLowerCase_char_def Let_def
  by (auto simp: of_char_of [where ?'a = nat])

lemma filter_strip_empty:
  "filter (\<lambda>c. \<not> regex_strip c) (toLowerCase s) = [] \<longleftrightarrow> (\<forall>c\<in>set s. regex_strip c)"
  by (simp add: toLowerCase_def filter_empty_conv regex_strip_toLowerCase)

lemma alias_pipeline_empty: "alias_pipeline t = [] \<longleftrightarrow> t = []"
proof
  assume "t = []"
  then show "alias_pipeline t = []" by (simp add: alias_pipeline_def)
next
  assume a: "alias_pipeline t = []"
  show "t = []"
  proof (rule ccontr)
    assume "t \<noteq> []"
    then have "replace_end_ci ''js'' ''javascript'' t \<noteq> []"
      by (rule replace_end_ci_nonempty) simp
    then have "replace_first_ci ''reactjs'' ''react'' (replace_end_ci ''js'' ''javascript'' t) \<noteq> []"
      by (rule replace_first_ci_nonempty) simp
    then have "alias_pipeline t \<noteq> []"
      unfolding alias_pipeline_def by (rule replace_first_ci_nonempty) simp
    with a show False by simp
  qed
qed

lemma normalizeSkillName_empty_iff:
  "normalizeSkillName n = [] \<longleftrightarrow> (case n of None \<Rightarrow> True | Some s \<Rightarrow> \<forall>c\<in>set s. regex_strip c)"
proof (cases n)
  case None
  then show ?thesis by (simp add: normalizeSkillName_def)
next
  case (Some s)
  show ?thesis
  proof (cases "s = []")
    case True
    with Some show ?thesis by (simp add: normalizeSkillName_def)
  next
    case False
    with Some have "normalizeSkillName n = alias_pipeline (filter (\<lambda>c. \<not> regex_strip c) (toLowerCase s))"
      by (simp only: normalizeSkillName_Some if_False)
    then show ?thesis
      using Some by (simp only: alias_pipeline_empty filter_strip_empty option.case)
  qed
qed

lemma hasSkill_loop_empty: "S \<noteq> [] \<Longrightarrow> hasSkill_loop S []"
  by (cases S) simp_all

section \<open>The alias table\<close>

text \<open>
  C6. The normalizer of the matching service lower-cases, strips and then rewrites a
  trailing "js" before it looks for "reactjs" and "nodejs", and it has no rule for a
  leading "js", "vuejs" or "angularjs"; the normalizer of the resume and job-description
  services has all six rules. Evaluated on the inputs where the two differ, and on the
  whole tokens "ReactJS" and "Node.js".
\<close>

theorem normalizeSkillName_alias_gaps:
  "normalizeSkillName (Some ''ReactJS'') = ''reactjavascript''
   \<and> normalizeSkillName (Some ''Node.js'') = ''nodejavascript''
   \<and> normalizeSkillName (Some ''Vue.js 3'') = ''vuejs3''
   \<and> ri_normalizeSkillName (Some ''Vue.js 3'') = ''vue3''
   \<and> normalizeSkillName (Some ''AngularJS 1.x'') = ''angularjs1x''
   \<and> ri_normalizeSkillName (Some ''AngularJS 1.x'') = ''angular1x''
   \<and> normalizeSkillName (Some ''JS Tools'') = ''jstools''
   \<and> ri_normalizeSkillName (Some ''JS Tools'') = ''javascripttools''"
  by code_simp

section \<open>Idempotence of the normalizer\<close>

text \<open>
  C7, as stated: normalizing twice gives the same token as normalizing once. Only the
  leftmost "reactjs" and the leftmost "nodejs" are rewritten, so a second pass can still
  find one.
\<close>

theorem normalizeSkillName_not_idempotent:
  "normalizeSkillName (Some (normalizeSkillName (Some ''NodeJS, Node.js, NPM'')))
     \<noteq> normalizeSkillName (Some ''NodeJS, Node.js, NPM'')"
  by code_simp

text \<open>
  C7, amended: normalizing twice gives the same token as normalizing once exactly when
  the token obtained by normalizing once contains neither "reactjs" nor "nodejs".
\<close>

theorem normalizeSkillName_idempotent_iff:
  "normalizeSkillName (Some (normalizeSkillName x)) = normalizeSkillName x
   \<longleftrightarrow> \<not> sublist ''reactjs'' (normalizeSkillName x)
       \<and> \<not> sublist ''nodejs'' (normalizeSkillName x)"
proof -
  let ?y = "normalizeSkillName x"
  have nf: "is_lower ?y" "is_stripped ?y" "\<not> suffix ''js'' ?y"
    using normalizeSkillName_normal_form [of x] by simp_all
  have eq: "normalizeSkillName (Some ?y) = (if ?y = [] then [] else alias_pipeline ?y)"
    by (rule normalizeSkillName_on_normal_form [OF nf(1,2)])
  show ?thesis
  proof (cases "sublist ''reactjs'' ?y \<or> sublist ''nodejs'' ?y")
    case True
    then have "?y \<noteq> []" by auto
    moreover have "length (alias_pipeline ?y) < length ?y"
      by (rule alias_pipeline_shrinks [OF nf(1,3) True])
    ultimately have "normalizeSkillName (Some ?y) \<noteq> ?y"
      using eq by auto
    with True show ?thesis by blast
  next
    case False
    then have "alias_pipeline ?y = ?y"
      using alias_pipeline_fixed [OF nf(1,3)] by simp
    with eq False show ?thesis by auto
  qed
qed

theorem normalizeSkillName_idempotent_iff_witness:
  "normalizeSkillName (Some (normalizeSkillName (Some ''ReactJS Developer'')))
     = normalizeSkillName (Some ''ReactJS Developer'')"
proof -
  have n: "normalizeSkillName (Some ''ReactJS Developer'') = ''reactdeveloper''"
    by code_simp
  have "\<not> sublist ''reactjs'' ''reactdeveloper''" "\<not> sublist ''nodejs'' ''reactdeveloper''"
    by code_simp+
  then show ?thesis
    using normalizeSkillName_idempotent_iff [of "Some ''ReactJS Developer''"] n by simp
qed

section \<open>Empty tokens always match\<close>

text \<open>
  C10. A name normalizes to the empty token exactly when it is absent, empty, or made only
  of dots, dashes, underscores and whitespace; against a non-empty candidate token set
  such a name always counts as present, the empty token being contained in every token.
\<close>

theorem hasSkill_empty_token:
  assumes "S \<noteq> []"
  shows "(normalizeSkillName n = [] \<longleftrightarrow>
            (case n of None \<Rightarrow> True | Some s \<Rightarrow> \<forall>c\<in>set s. regex_strip c))
         \<and> (normalizeSkillName n = [] \<longrightarrow> hasSkill S n)"
proof -
  have "hasSkill S n" if "normalizeSkillName n = []"
    using that hasSkill_loop_empty [OF assms] by (simp add: hasSkill_def)
  then show ?thesis
    using normalizeSkillName_empty_iff [of n] by blast
qed

theorem hasSkill_empty_token_witness:
  "hasSkill [''python''] (Some '' .-_ '') \<and> hasSkill [''python''] None"
proof -
  have ne: "[''python''] \<noteq> []" by simp
  have s: "\<forall>c\<in>set '' .-_ ''. regex_strip c" by code_simp
  show ?thesis
    using hasSkill_empty_token [OF ne, of "Some '' .-_ ''"] hasSkill_empty_token [OF ne, of None] s
    by simp
qed

section \<open>Rounding\<close>


section \<open>Skills score\<close>











section \<open>Experience score\<close>











section \<open>Projects score\<close>






section \<open>Weighted total\<close>








section \<open>Fallback explanation\<close>



section \<open>Comparison winners\<close>

lemma better_step_first:
  fixes d :: string
  defines "sc \<equiv> \<lambda>c. num_or (score_of d c) 0"
  assumes i: "i < length L"
      and le: "\<forall>j<length L. sc (L ! j) \<le> sc (L ! i)"
      and lt: "\<forall>j<i. sc (L ! j) < sc (L ! i)"
  shows "\<exists>k<length (L @ [y]). better d (L ! i) y = (L @ [y]) ! k
           \<and> (\<forall>j<length (L @ [y]). sc ((L @ [y]) ! j) \<le> sc ((L @ [y]) ! k))
           \<and> (\<forall>j<k. sc ((L @ [y]) ! j) < sc ((L @ [y]) ! k))"
proof -
  have old: "(L @ [y]) ! j = L ! j" if "j < length L" for j
    using that by (simp add: nth_append)
  have new: "(L @ [y]) ! length L = y"
    by simp
  have split: "j < length L \<or> j = length L" if "j < length (L @ [y])" for j
    using that by auto
  show ?thesis
  proof (cases "sc y > sc (L ! i)")
    case True
    then have w: "better d (L ! i) y = (L @ [y]) ! length L"
      by (simp add: better_def sc_def)
    have a: "sc ((L @ [y]) ! j) \<le> sc ((L @ [y]) ! length L)" if "j < length (L @ [y])" for j
    proof -
      from split [OF that] show ?thesis
      proof
        assume j: "j < length L"
        then have "sc (L ! j) \<le> sc (L ! i)" using le by blast
        with True show ?thesis by (simp only: old [OF j] new)
      next
        assume "j = length L"
        then show ?thesis by simp
      qed
    qed
    have b: "sc ((L @ [y]) ! j) < sc ((L @ [y]) ! length L)" if j: "j < length L" for j
    proof -
      have "sc (L ! j) \<le> sc (L ! i)" using le j by blast
      with True show ?thesis by (simp only: old [OF j] new)
    qed
    have "length L < length (L @ [y])" by simp
    with w a b show ?thesis by blast
  next
    case False
    then have w: "better d (L ! i) y = (L @ [y]) ! i"
      by (simp add: better_def sc_def old [OF i])
    have a: "sc ((L @ [y]) ! j) \<le> sc ((L @ [y]) ! i)" if "j < length (L @ [y])" for j
    proof -
      from split [OF that] show ?thesis
      proof
        assume j: "j < length L"
        then have "sc (L ! j) \<le> sc (L ! i)" using le by blast
        then show ?thesis by (simp only: old [OF j] old [OF i])
      next
        assume "j = length L"
        then show ?thesis using False by (simp only: new old [OF i] not_less)
      qed
    qed
    have b: "sc ((L @ [y]) ! j) < sc ((L @ [y]) ! i)" if j: "j < i" for j
    proof -
      have jl: "j < length L" using j i by simp
      have "sc (L ! j) < sc (L ! i)" using lt j by blast
      then show ?thesis by (simp only: old [OF jl] old [OF i])
    qed
    have "i < length (L @ [y])" using i by simp
    with w a b show ?thesis by blast
  qed
qed

lemma foldl_better_first:
  "\<exists>i<length (x # xs). foldl (better d) x xs = (x # xs) ! i
     \<and> (\<forall>j<length (x # xs). num_or (score_of d ((x # xs) ! j)) 0
                               \<le> num_or (score_of d ((x # xs) ! i)) 0)
     \<and> (\<forall>j<i. num_or (score_of d ((x # xs) ! j)) 0 < num_or (score_of d ((x # xs) ! i)) 0)"
proof (induction xs rule: rev_induct)
  case Nil
  then show ?case by simp
next
  case (snoc y ys)
  then obtain i where i: "i < length (x # ys)"
      and b: "foldl (better d) x ys = (x # ys) ! i"
      and le: "\<forall>j<length (x # ys). num_or (score_of d ((x # ys) ! j)) 0
                                      \<le> num_or (score_of d ((x # ys) ! i)) 0"
      and lt: "\<forall>j<i. num_or (score_of d ((x # ys) ! j)) 0 < num_or (score_of d ((x # ys) ! i)) 0"
    by blast
  have "foldl (better d) x (ys @ [y]) = better d ((x # ys) ! i) y"
    using b by simp
  moreover have "x # ys @ [y] = (x # ys) @ [y]" by simp
  ultimately show ?case
    using better_step_first [OF i le lt, of y] by (simp only:)
qed

lemma reduce1_first_highest:
  assumes "cs \<noteq> []"
  shows "\<exists>best. reduce1 (better d) cs = Inr best
           \<and> first_highest (\<lambda>c. num_or (score_of d c) 0) cs (candidate_id best)"
proof -
  from assms obtain x xs where cs: "cs = x # xs" by (cases cs) auto
  from foldl_better_first [of x xs d] obtain i where
    "i < length (x # xs)" "foldl (better d) x xs = (x # xs) ! i"
    "\<forall>j<length (x # xs). num_or (score_of d ((x # xs) ! j)) 0 \<le> num_or (score_of d ((x # xs) ! i)) 0"
    "\<forall>j<i. num_or (score_of d ((x # xs) ! j)) 0 < num_or (score_of d ((x # xs) ! i)) 0"
    by blast
  then have "first_highest (\<lambda>c. num_or (score_of d c) 0) (x # xs)
               (candidate_id (foldl (better d) x xs))"
    unfolding first_highest_def by metis
  then show ?thesis by (simp add: cs)
qed

lemma dimension_entries_winners:
  assumes "cs \<noteq> []"
  shows "\<exists>es. dimension_entries cs dims = Inr es \<and> map dimension es = dims
           \<and> (\<forall>e\<in>set es. first_highest (\<lambda>c. num_or (score_of (dimension e) c) 0) cs (winner e))"
proof (induction dims)
  case Nil
  then show ?case by simp
next
  case (Cons d dims)
  then obtain es where es: "dimension_entries cs dims = Inr es" "map dimension es = dims"
    "\<forall>e\<in>set es. first_highest (\<lambda>c. num_or (score_of (dimension e) c) 0) cs (winner e)"
    by blast
  from reduce1_first_highest [OF assms, of d] obtain best where
    best: "reduce1 (better d) cs = Inr best"
      "first_highest (\<lambda>c. num_or (score_of d c) 0) cs (candidate_id best)"
    by blast
  show ?case
    using es best by simp
qed

text \<open>
  C9. With fewer than two identifiers that resolve to a candidate, the comparison fails
  with the error "Need at least 2 valid candidates to compare". With two or more it
  returns one entry for each of the dimensions skills, experience, projects and education,
  whose winner is the earliest resolved candidate with the highest score of that
  dimension, and an overall winner chosen the same way on the total score. A score that is
  present is compared as it is; a missing score counts as 0.
\<close>

theorem compareCandidates_winners:
  "(length (filter_Boolean (map findById candidateIds)) < 2 \<longrightarrow>
      compareCandidates findById candidateIds
        = Inl (Error ''Need at least 2 valid candidates to compare''))
   \<and> (2 \<le> length (filter_Boolean (map findById candidateIds)) \<longrightarrow>
        (\<exists>cmp. compareCandidates findById candidateIds = Inr cmp
           \<and> map dimension (dimensions cmp) = [''skills'', ''experience'', ''projects'', ''education'']
           \<and> (\<forall>e\<in>set (dimensions cmp).
                 first_highest (\<lambda>c. num_or (score_of (dimension e) c) 0)
                   (filter_Boolean (map findById candidateIds)) (winner e))
           \<and> first_highest (\<lambda>c. num_or (score_total c) 0)
                 (filter_Boolean (map findById candidateIds)) (overallWinner cmp)))
   \<and> (\<forall>v. num_or (Some v) 0 = v)"
proof -
  let ?valid = "filter_Boolean (map findById candidateIds)"
  have present: "\<forall>v. num_or (Some v) 0 = v"
    by (simp add: num_or_def)
  have few: "compareCandidates findById candidateIds
               = Inl (Error ''Need at least 2 valid candidates to compare'')"
    if "length ?valid < 2"
    using that by (simp add: compareCandidates_def Let_def)
  have many: "\<exists>cmp. compareCandidates findById candidateIds = Inr cmp
           \<and> map dimension (dimensions cmp) = [''skills'', ''experience'', ''projects'', ''education'']
           \<and> (\<forall>e\<in>set (dimensions cmp).
                 first_highest (\<lambda>c. num_or (score_of (dimension e) c) 0) ?valid (winner e))
           \<and> first_highest (\<lambda>c. num_or (score_total c) 0) ?valid (overallWinner cmp)"
    if "2 \<le> length ?valid"
  proof -
    from that have ne: "?valid \<noteq> []" by auto
    obtain es where es:
      "dimension_entries ?valid [''skills'', ''experience'', ''projects'', ''education''] = Inr es
       \<and> map dimension es = [''skills'', ''experience'', ''projects'', ''education'']
       \<and> (\<forall>e\<in>set es.
             first_highest (\<lambda>c. num_or (score_of (dimension e) c) 0) ?valid (winner e))"
      using dimension_entries_winners [OF ne] ..
    from reduce1_first_highest [OF ne, of "''total''"] obtain best where
      best: "reduce1 (better ''total'') ?valid = Inr best"
        "first_highest (\<lambda>c. num_or (score_of ''total'' c) 0) ?valid (candidate_id best)"
      by blast
    have tot: "score_of ''total'' = score_total"
      by (rule ext) (simp add: score_of_def)
    show ?thesis
      using that es best
      by (simp add: compareCandidates_def Let_def tot del: dimension_entries.simps)
  qed
  from few many present show ?thesis by blast
qed

theorem compareCandidates_winners_witness:
  "compareCandidates example_findById [''c1'', ''missing'']
     = Inl (Error ''Need at least 2 valid candidates to compare'')
   \<and> (\<exists>cmp. compareCandidates example_findById [''c1'', ''missing'', ''c2'', ''c3''] = Inr cmp
         \<and> map winner (dimensions cmp) = [''c1'', ''c2'', ''c1'', ''c1'']
         \<and> overallWinner cmp = ''c1'')"
proof (rule conjI)
  have few: "length (filter_Boolean (map example_findById [''c1'', ''missing''])) < 2"
    by code_simp
  show "compareCandidates example_findById [''c1'', ''missing'']
          = Inl (Error ''Need at least 2 valid candidates to compare'')"
    by (rule compareCandidates_winners [THEN conjunct1, THEN mp, OF few])
next
  have many: "2 \<le> length (filter_Boolean (map example_findById [''c1'', ''missing'', ''c2'', ''c3'']))"
    by code_simp
  from compareCandidates_winners [THEN conjunct2, THEN conjunct1, THEN mp, OF many]
  obtain cmp where cmp:
    "compareCandidates example_findById [''c1'', ''missing'', ''c2'', ''c3''] = Inr cmp"
    by (elim exE conjE)
  have "map_sum (\<lambda>e. e) (\<lambda>c. (map winner (dimensions c), overallWinner c))
          (compareCandidates example_findById [''c1'', ''missing'', ''c2'', ''c3''])
        = Inr ([''c1'', ''c2'', ''c1'', ''c1''], ''c1'')"
    by code_simp
  then have "map winner (dimensions cmp) = [''c1'', ''c2'', ''c1'', ''c1'']
             \<and> overallWinner cmp = ''c1''"
    unfolding cmp by simp
  with cmp show "\<exists>cmp. compareCandidates example_findById [''c1'', ''missing'', ''c2'', ''c3'']
                         = Inr cmp
         \<and> map winner (dimensions cmp) = [''c1'', ''c2'', ''c1'', ''c1'']
         \<and> overallWinner cmp = ''c1''"
    by (intro exI [of _ cmp] conjI) simp_all
qed

end
